theory Spec2Isabelle
  imports Main
begin

section \<open>Strings, errors and the builtins the module calls\<close>

text \<open>
  A Python \<^verbatim>\<open>str\<close> is a sequence of Unicode code points; a code point is modelled as
  a natural number, so that the accented letters of the pattern alphabet are single
  characters, as they are for Python.  \<open>ustr\<close> reads an ASCII literal.
\<close>

type_synonym uchar = nat
type_synonym ustring = "uchar list"

definition ustr :: "string \<Rightarrow> ustring" where
  "ustr s = map of_char s"

text \<open>The two exceptions the module can raise: \<^verbatim>\<open>int()\<close> on a malformed segment, and
  an out-of-range list assignment.\<close>

datatype error = ValueError | IndexError

text \<open>The character classes of the three regular expressions:
  \<^verbatim>\<open>[0-9]\<close>, \<^verbatim>\<open>[a-z]\<close>, and the class of \<^verbatim>\<open>_insert_pattern\<close>, which is the dot, a-z and
  the code points U+00E1, U+00E9, U+00ED, U+00F3, U+00FA, U+00FC, U+00F1.\<close>

definition is_digit :: "uchar \<Rightarrow> bool" where
  "is_digit c \<longleftrightarrow> 48 \<le> c \<and> c \<le> 57"

definition is_az :: "uchar \<Rightarrow> bool" where
  "is_az c \<longleftrightarrow> 97 \<le> c \<and> c \<le> 122"

definition is_pattern_letter :: "uchar \<Rightarrow> bool" where
  "is_pattern_letter c \<longleftrightarrow>
     c = 46 \<or> is_az c \<or> c = 225 \<or> c = 233 \<or> c = 237 \<or> c = 243 \<or> c = 250 \<or> c = 252 \<or> c = 241"

text \<open>\<^verbatim>\<open>str.split()\<close> without arguments cuts at runs of whitespace and drops empty
  tokens.  \<open>isspace\<close> lists the code points Python treats as whitespace.\<close>

definition isspace :: "uchar \<Rightarrow> bool" where
  "isspace c \<longleftrightarrow>
     (9 \<le> c \<and> c \<le> 13) \<or> (28 \<le> c \<and> c \<le> 32) \<or> c = 133 \<or> c = 160 \<or> c = 5760 \<or>
     (8192 \<le> c \<and> c \<le> 8202) \<or> c = 8232 \<or> c = 8233 \<or> c = 8239 \<or> c = 8287 \<or> c = 12288"

fun split_acc :: "ustring \<Rightarrow> ustring \<Rightarrow> ustring list" where
  "split_acc cur [] = (if cur = [] then [] else [cur])"
| "split_acc cur (c # cs) =
     (if isspace c then (if cur = [] then split_acc [] cs else cur # split_acc [] cs)
      else split_acc (cur @ [c]) cs)"

definition str_split :: "ustring \<Rightarrow> ustring list" where
  "str_split s = split_acc [] s"

text \<open>\<^verbatim>\<open>re.split(cls, s)\<close> for a one-character class: the segments between the
  matching characters, one more than there are matches.  The result is never empty,
  so the first branch of the case is not reached.\<close>

fun re_split :: "(uchar \<Rightarrow> bool) \<Rightarrow> ustring \<Rightarrow> ustring list" where
  "re_split sep [] = [[]]"
| "re_split sep (c # cs) =
     (if sep c then [] # re_split sep cs
      else (case re_split sep cs of [] \<Rightarrow> [[c]] | s # ss \<Rightarrow> (c # s) # ss))"

text \<open>\<^verbatim>\<open>sep.join(pieces)\<close>.\<close>

fun join :: "ustring \<Rightarrow> ustring list \<Rightarrow> ustring" where
  "join sep [] = []"
| "join sep [p] = p"
| "join sep (p # q # ps) = p @ sep @ join sep (q # ps)"

text \<open>
  Two builtins are parameters of the model, since their full Unicode tables are not part
  of the module: \<open>lower\<close> stands for \<^verbatim>\<open>str.lower\<close>, and \<open>pint\<close> for \<^verbatim>\<open>int\<close> applied to a
  non-empty string, with \<open>None\<close> where \<^verbatim>\<open>int\<close> raises ValueError.  The two functions
  below are their restrictions to ASCII, used to run the model on concrete inputs:
  \<open>ascii_lower\<close> maps A-Z to a-z, and \<open>dec_int\<close> reads a run of ASCII digits.
\<close>

definition ascii_lower :: "ustring \<Rightarrow> ustring" where
  "ascii_lower s = map (\<lambda>c. if 65 \<le> c \<and> c \<le> 90 then c + 32 else c) s"

definition dec_value :: "ustring \<Rightarrow> int" where
  "dec_value ds = foldl (\<lambda>n c. 10 * n + (int c - 48)) 0 ds"

definition dec_int :: "ustring \<Rightarrow> int option" where
  "dec_int ds = (if ds \<noteq> [] \<and> list_all is_digit ds then Some (dec_value ds) else None)"

section \<open>The pattern tree\<close>

text \<open>
  \<^verbatim>\<open>self.tree\<close> is a dict of dicts: a key that is a character leads to the dict one
  level down, and the key \<^verbatim>\<open>None\<close> holds the list of points of a pattern ending there.
\<close>

datatype trie = Node (points_of: "int list option") (child: "uchar \<Rightarrow> trie option")

definition empty_tree :: trie where
  "empty_tree = Node None (\<lambda>c. None)"

text \<open>\<^verbatim>\<open>chars = re.sub('[0-9]', '', pattern)\<close>\<close>

definition pattern_chars :: "ustring \<Rightarrow> ustring" where
  "pattern_chars pattern = filter (\<lambda>c. \<not> is_digit c) pattern"

text \<open>\<^verbatim>\<open>[ int(d or 0) for d in segments ]\<close>: the first segment \<^verbatim>\<open>int\<close> rejects raises.\<close>

fun int_all :: "(ustring \<Rightarrow> int option) \<Rightarrow> ustring list \<Rightarrow> error + int list" where
  "int_all pint [] = Inr []"
| "int_all pint (d # ds) =
     (case (if d = [] then Some 0 else pint d) of
        None \<Rightarrow> Inl ValueError
      | Some n \<Rightarrow> (case int_all pint ds of Inl e \<Rightarrow> Inl e | Inr ns \<Rightarrow> Inr (n # ns)))"

definition pattern_points :: "(ustring \<Rightarrow> int option) \<Rightarrow> ustring \<Rightarrow> error + int list" where
  "pattern_points pint pattern = int_all pint (re_split is_pattern_letter pattern)"

text \<open>The walk of \<^verbatim>\<open>_insert_pattern\<close>: one level per character, a missing level is
  created empty, and the points are stored under \<^verbatim>\<open>None\<close> at the end, replacing any
  list already there.\<close>

fun insert_chars :: "ustring \<Rightarrow> int list \<Rightarrow> trie \<Rightarrow> trie" where
  "insert_chars [] points (Node p ch) = Node (Some points) ch"
| "insert_chars (c # cs) points (Node p ch) =
     Node p (ch(c \<mapsto> insert_chars cs points
                        (case ch c of None \<Rightarrow> empty_tree | Some t \<Rightarrow> t)))"

definition insert_pattern :: "(ustring \<Rightarrow> int option) \<Rightarrow> ustring \<Rightarrow> trie \<Rightarrow> error + trie" where
  "insert_pattern pint pattern t =
     (case pattern_points pint pattern of
        Inl e \<Rightarrow> Inl e
      | Inr points \<Rightarrow> Inr (insert_chars (pattern_chars pattern) points t))"

fun insert_patterns :: "(ustring \<Rightarrow> int option) \<Rightarrow> ustring list \<Rightarrow> trie \<Rightarrow> error + trie" where
  "insert_patterns pint [] t = Inr t"
| "insert_patterns pint (pattern # rest) t =
     (case insert_pattern pint pattern t of
        Inl e \<Rightarrow> Inl e
      | Inr t' \<Rightarrow> insert_patterns pint rest t')"

section \<open>The exceptions and the constructor\<close>

text \<open>\<^verbatim>\<open>self.exceptions[ex.replace('-', '')] =
  [0] + [ int(h == '-') for h in re.split(r"[a-z]", ex) ]\<close>\<close>

definition exception_key :: "ustring \<Rightarrow> ustring" where
  "exception_key ex = filter (\<lambda>c. c \<noteq> 45) ex"

definition exception_points :: "ustring \<Rightarrow> int list" where
  "exception_points ex = 0 # map (\<lambda>h. if h = [45] then 1 else 0) (re_split is_az ex)"

fun add_exceptions :: "ustring list \<Rightarrow> (ustring \<rightharpoonup> int list) \<Rightarrow> (ustring \<rightharpoonup> int list)" where
  "add_exceptions [] m = m"
| "add_exceptions (ex # rest) m =
     add_exceptions rest (m(exception_key ex \<mapsto> exception_points ex))"

record hyphenator =
  tree :: trie
  exceptions :: "ustring \<rightharpoonup> int list"

definition Hyphenator :: "(ustring \<Rightarrow> int option) \<Rightarrow> ustring \<Rightarrow> ustring \<Rightarrow> error + hyphenator" where
  "Hyphenator pint patterns excs =
     (case insert_patterns pint (str_split patterns) empty_tree of
        Inl e \<Rightarrow> Inl e
      | Inr t \<Rightarrow> Inr \<lparr>tree = t, exceptions = add_exceptions (str_split excs) Map.empty\<rparr>)"

section \<open>hyphenate_word\<close>

text \<open>\<^verbatim>\<open>for j in range(len(p)): points[i+j] = max(points[i+j], p[j])\<close>, with \<open>k\<close>
  running over \<open>i+j\<close>; an assignment past the end of \<open>points\<close> raises IndexError.\<close>

fun merge_points :: "nat \<Rightarrow> int list \<Rightarrow> int list \<Rightarrow> error + int list" where
  "merge_points k [] points = Inr points"
| "merge_points k (x # xs) points =
     (if k < length points then merge_points (Suc k) xs (points[k := max (points ! k) x])
      else Inl IndexError)"

text \<open>\<^verbatim>\<open>for c in work[i:]\<close>: go down while the character is in the current dict, merge
  the points found under \<^verbatim>\<open>None\<close>, and break at the first character that is missing.\<close>

fun walk :: "nat \<Rightarrow> trie \<Rightarrow> ustring \<Rightarrow> int list \<Rightarrow> error + int list" where
  "walk i t [] points = Inr points"
| "walk i t (c # cs) points =
     (case child t c of
        None \<Rightarrow> Inr points
      | Some t' \<Rightarrow>
          (case points_of t' of
             None \<Rightarrow> walk i t' cs points
           | Some p \<Rightarrow>
               (case merge_points i p points of
                  Inl e \<Rightarrow> Inl e
                | Inr points' \<Rightarrow> walk i t' cs points')))"

text \<open>\<^verbatim>\<open>for i in range(len(work))\<close>; the third argument is \<^verbatim>\<open>work[i:]\<close>.\<close>

fun scan :: "trie \<Rightarrow> nat \<Rightarrow> ustring \<Rightarrow> int list \<Rightarrow> error + int list" where
  "scan t i [] points = Inr points"
| "scan t i (c # cs) points =
     (case walk i t (c # cs) points of
        Inl e \<Rightarrow> Inl e
      | Inr points' \<Rightarrow> scan t (Suc i) cs points')"

definition word_points :: "(ustring \<Rightarrow> ustring) \<Rightarrow> hyphenator \<Rightarrow> ustring \<Rightarrow> error + int list" where
  "word_points lower h word =
     (case exceptions h (lower word) of
        Some points \<Rightarrow> Inr points
      | None \<Rightarrow>
          (let work = 46 # lower word @ [46]
           in scan (tree h) 0 work (replicate (length work + 1) 0)))"

text \<open>The loop that builds the pieces: the character joins the last piece, and an odd
  point opens a new, empty piece.  \<open>pieces\<close> starts as \<^verbatim>\<open>['']\<close> and is never empty.\<close>

fun build_pieces :: "(uchar \<times> int) list \<Rightarrow> ustring list \<Rightarrow> ustring list" where
  "build_pieces [] pieces = pieces"
| "build_pieces ((c, p) # rest) pieces =
     (let pieces' = butlast pieces @ [last pieces @ [c]]
      in build_pieces rest (if p mod 2 \<noteq> 0 then pieces' @ [[]] else pieces'))"

definition hyphenate_word :: "(ustring \<Rightarrow> ustring) \<Rightarrow> hyphenator \<Rightarrow> ustring \<Rightarrow> error + ustring list" where
  "hyphenate_word lower h word =
     (case word_points lower h word of
        Inl e \<Rightarrow> Inl e
      | Inr points \<Rightarrow> Inr (build_pieces (zip word (drop 2 points)) [[]]))"

definition hyphenate_word_as_string :: "(ustring \<Rightarrow> ustring) \<Rightarrow> hyphenator \<Rightarrow> ustring \<Rightarrow> error + ustring" where
  "hyphenate_word_as_string lower h word =
     (case hyphenate_word lower h word of
        Inl e \<Rightarrow> Inl e
      | Inr pieces \<Rightarrow> Inr (join [45] pieces))"

section \<open>Reading the tree; what a scan can find\<close>

text \<open>
  The definitions of this section are not part of the module: they describe the tree and
  the scan from outside.  \<open>node_at t cs\<close> is the dict reached from \<open>t\<close> along the
  characters \<open>cs\<close>, and \<open>lookup t cs\<close> the points stored there.  \<open>bounded d t\<close> says that
  a list of points stored \<open>n\<close> levels below \<open>t\<close> has at most \<open>d + n + 1\<close> entries.
  \<open>walk_weights\<close>, \<open>scan_weights\<close> and \<open>slot_weights\<close> are the values offered to a slot
  by the patterns met on one walk, on the walks from a range of offsets, and on all
  walks over the padded word; \<open>raised S a b\<close> says that \<open>b\<close> is \<open>a\<close> with every slot
  \<open>m\<close> raised to the largest value of \<open>S m\<close> above it.
\<close>

fun node_at :: "trie \<Rightarrow> ustring \<Rightarrow> trie option" where
  "node_at t [] = Some t"
| "node_at t (c # cs) = (case child t c of None \<Rightarrow> None | Some t' \<Rightarrow> node_at t' cs)"

definition lookup :: "trie \<Rightarrow> ustring \<Rightarrow> int list option" where
  "lookup t cs = (case node_at t cs of None \<Rightarrow> None | Some n \<Rightarrow> points_of n)"

definition bounded :: "nat \<Rightarrow> trie \<Rightarrow> bool" where
  "bounded d t \<longleftrightarrow> (\<forall>cs p. lookup t cs = Some p \<longrightarrow> length p \<le> d + length cs + 1)"

definition walk_weights :: "nat \<Rightarrow> trie \<Rightarrow> ustring \<Rightarrow> nat \<Rightarrow> int set" where
  "walk_weights i t cs m =
     {p ! (m - i) | n p. 0 < n \<and> n \<le> length cs \<and> lookup t (take n cs) = Some p \<and>
                         i \<le> m \<and> m - i < length p}"

definition raised :: "(nat \<Rightarrow> int set) \<Rightarrow> int list \<Rightarrow> int list \<Rightarrow> bool" where
  "raised S a b \<longleftrightarrow>
     length b = length a \<and>
     (\<forall>m<length a. a ! m \<le> b ! m \<and> (\<forall>v\<in>S m. v \<le> b ! m) \<and> (b ! m = a ! m \<or> b ! m \<in> S m))"

definition scan_weights :: "nat \<Rightarrow> trie \<Rightarrow> ustring \<Rightarrow> nat \<Rightarrow> int set" where
  "scan_weights i t cs m = (\<Union>k<length cs. walk_weights (i + k) t (drop k cs) m)"

definition slot_weights :: "trie \<Rightarrow> ustring \<Rightarrow> nat \<Rightarrow> int set" where
  "slot_weights t work k =
     {p ! j | i n p j. i < length work \<and> 0 < n \<and> i + n \<le> length work \<and>
                       lookup t (take n (drop i work)) = Some p \<and> j < length p \<and> i + j = k}"

section \<open>Using the class; reading a spelling\<close>

text \<open>
  \<open>hyphenate_with\<close> is \<^verbatim>\<open>Hyphenator(patterns, exceptions).hyphenate_word(word)\<close>, the use
  the main block of the module makes of the class; \<open>points_with\<close> is the vector of points
  that call works from, and \<open>as_string_with\<close> the same use of
  \<^verbatim>\<open>hyphenate_word_as_string\<close>.  \<open>gap sep s k\<close> reads a pattern or an exception from outside: the characters
  written in \<open>s\<close> after exactly \<open>k\<close> characters of the class \<open>sep\<close> and before the next
  one, that is, what is written at the \<open>k\<close>-th letter boundary.
\<close>

definition hyphenate_with ::
  "(ustring \<Rightarrow> int option) \<Rightarrow> (ustring \<Rightarrow> ustring) \<Rightarrow> ustring \<Rightarrow> ustring \<Rightarrow> ustring \<Rightarrow> error + ustring list" where
  "hyphenate_with pint lower patterns excs word =
     (case Hyphenator pint patterns excs of
        Inl e \<Rightarrow> Inl e
      | Inr h \<Rightarrow> hyphenate_word lower h word)"

definition points_with ::
  "(ustring \<Rightarrow> int option) \<Rightarrow> (ustring \<Rightarrow> ustring) \<Rightarrow> ustring \<Rightarrow> ustring \<Rightarrow> ustring \<Rightarrow> error + int list" where
  "points_with pint lower patterns excs word =
     (case Hyphenator pint patterns excs of
        Inl e \<Rightarrow> Inl e
      | Inr h \<Rightarrow> word_points lower h word)"

definition as_string_with ::
  "(ustring \<Rightarrow> int option) \<Rightarrow> (ustring \<Rightarrow> ustring) \<Rightarrow> ustring \<Rightarrow> ustring \<Rightarrow> ustring \<Rightarrow> error + ustring" where
  "as_string_with pint lower patterns excs word =
     (case Hyphenator pint patterns excs of
        Inl e \<Rightarrow> Inl e
      | Inr h \<Rightarrow> hyphenate_word_as_string lower h word)"

fun gap :: "(uchar \<Rightarrow> bool) \<Rightarrow> ustring \<Rightarrow> nat \<Rightarrow> ustring" where
  "gap sep [] k = []"
| "gap sep (c # cs) k =
     (if sep c then (case k of 0 \<Rightarrow> [] | Suc j \<Rightarrow> gap sep cs j)
      else if k = 0 then c # gap sep cs 0 else gap sep cs k)"

text \<open>
  The remaining definitions serve the statements about construction.  \<open>insert_parsed\<close> is
  \<^verbatim>\<open>_insert_pattern\<close> for a token that parses, and leaves the tree alone otherwise.
  \<open>well_formed\<close> is the grammar of a pattern token: letters of the pattern alphabet and
  ASCII digits.  \<open>reads_runs pint pattern\<close> says that \<^verbatim>\<open>int\<close> reads each run of digits
  written at a letter boundary of this token as its decimal value.  \<open>limited_int\<close> is
  CPython's \<^verbatim>\<open>int\<close> on a run of ASCII digits under the interpreter's default limit on the
  conversion of a decimal string, 4300 digits: a longer run raises ValueError.
\<close>

definition insert_parsed :: "(ustring \<Rightarrow> int option) \<Rightarrow> ustring \<Rightarrow> trie \<Rightarrow> trie" where
  "insert_parsed pint pattern t =
     (case pattern_points pint pattern of
        Inl e \<Rightarrow> t
      | Inr points \<Rightarrow> insert_chars (pattern_chars pattern) points t)"

definition well_formed :: "ustring \<Rightarrow> bool" where
  "well_formed pattern = list_all (\<lambda>c. is_pattern_letter c \<or> is_digit c) pattern"

definition reads_runs :: "(ustring \<Rightarrow> int option) \<Rightarrow> ustring \<Rightarrow> bool" where
  "reads_runs pint pattern \<longleftrightarrow>
     (\<forall>k. gap is_pattern_letter pattern k \<noteq> [] \<longrightarrow>
          pint (gap is_pattern_letter pattern k) = Some (dec_value (gap is_pattern_letter pattern k)))"

definition limited_int :: "ustring \<Rightarrow> int option" where
  "limited_int ds =
     (if ds \<noteq> [] \<and> list_all is_digit ds \<and> length ds \<le> 4300 then Some (dec_value ds) else None)"

section \<open>Lemmas on the pieces\<close>

lemma build_pieces_nonempty: "pieces \<noteq> [] \<Longrightarrow> build_pieces zs pieces \<noteq> []"
  by (induction zs pieces rule: build_pieces.induct) (auto simp: Let_def)

lemma concat_build_pieces:
  "pieces \<noteq> [] \<Longrightarrow> concat (build_pieces zs pieces) = concat pieces @ map fst zs"
proof (induction zs pieces rule: build_pieces.induct)
  case (1 pieces)
  then show ?case by simp
next
  case (2 c p rest pieces)
  from \<open>pieces \<noteq> []\<close> have "concat pieces = concat (butlast pieces) @ last pieces"
    by (metis append_butlast_last_id concat.simps(1,2) concat_append append_Nil2)
  with 2 show ?case by (simp add: Let_def)
qed

lemma build_pieces_even:
  "pieces \<noteq> [] \<Longrightarrow> list_all (\<lambda>z. even (snd z)) zs \<Longrightarrow>
   build_pieces zs pieces = butlast pieces @ [last pieces @ map fst zs]"
  by (induction zs pieces rule: build_pieces.induct) (auto simp: Let_def)

section \<open>Lemmas on the tree\<close>

lemma lookup_Nil: "lookup t [] = points_of t"
  by (simp add: lookup_def)

lemma lookup_Cons: "lookup t (c # cs) = (case child t c of None \<Rightarrow> None | Some t' \<Rightarrow> lookup t' cs)"
  by (simp add: lookup_def split: option.splits)

lemma lookup_empty_tree: "lookup empty_tree cs = None"
  by (cases cs) (simp_all add: lookup_Nil lookup_Cons empty_tree_def)

lemma lookup_insert_chars:
  "lookup (insert_chars cs points t) ds = (if ds = cs then Some points else lookup t ds)"
proof (induction cs arbitrary: t ds)
  case Nil
  then show ?case by (cases t; cases ds) (simp_all add: lookup_Nil lookup_Cons)
next
  case (Cons c cs)
  show ?case
  proof (cases t)
    case (Node p ch)
    show ?thesis
    proof (cases ds)
      case Nil
      then show ?thesis using Node by (simp add: lookup_Nil)
    next
      case (Cons d ds')
      then show ?thesis using Node Cons.IH
        by (auto simp: lookup_Cons lookup_empty_tree split: option.splits)
    qed
  qed
qed

lemma insert_chars_commute:
  "cs1 \<noteq> cs2 \<Longrightarrow>
   insert_chars cs1 p1 (insert_chars cs2 p2 t) = insert_chars cs2 p2 (insert_chars cs1 p1 t)"
proof (induction cs1 arbitrary: cs2 t)
  case Nil
  then show ?case by (cases t; cases cs2) simp_all
next
  case (Cons c cs1)
  show ?case
  proof (cases t)
    case (Node p ch)
    show ?thesis
    proof (cases cs2)
      case Nil
      then show ?thesis using Node by simp
    next
      case (Cons d ds)
      show ?thesis
      proof (cases "c = d")
        case True
        with Cons.prems Cons have "cs1 \<noteq> ds" by simp
        then show ?thesis using Node Cons True Cons.IH by simp
      next
        case False
        then show ?thesis using Node Cons by (simp add: fun_upd_twist)
      qed
    qed
  qed
qed

lemma insert_chars_overwrite:
  "insert_chars cs p1 (insert_chars cs p2 t) = insert_chars cs p1 t"
proof (induction cs arbitrary: t)
  case Nil
  then show ?case by (cases t) simp
next
  case (Cons c cs)
  then show ?case by (cases t) simp
qed

section \<open>Lemmas on the scan\<close>

lemma raised_refl: "raised (\<lambda>m. {}) a a"
  by (simp add: raised_def)

lemma raised_trans:
  assumes "raised S1 a b" and "raised S2 b c"
  shows "raised (\<lambda>m. S1 m \<union> S2 m) a c"
  unfolding raised_def
proof (intro conjI allI impI)
  show "length c = length a" using assms by (simp add: raised_def)
next
  fix m assume m: "m < length a"
  then have mb: "m < length b" using assms(1) by (simp add: raised_def)
  have ab: "a ! m \<le> b ! m" "\<forall>v\<in>S1 m. v \<le> b ! m" "b ! m = a ! m \<or> b ! m \<in> S1 m"
    using assms(1) m by (auto simp: raised_def)
  have bc: "b ! m \<le> c ! m" "\<forall>v\<in>S2 m. v \<le> c ! m" "c ! m = b ! m \<or> c ! m \<in> S2 m"
    using assms(2) mb by (auto simp: raised_def)
  show "a ! m \<le> c ! m" using ab(1) bc(1) by simp
  show "\<forall>v\<in>S1 m \<union> S2 m. v \<le> c ! m" using ab(2) bc(1,2) by fastforce
  show "c ! m = a ! m \<or> c ! m \<in> S1 m \<union> S2 m" using ab(3) bc(3) by auto
qed

lemma raised_cong: "raised S a b \<Longrightarrow> (\<And>m. m < length a \<Longrightarrow> S m = S' m) \<Longrightarrow> raised S' a b"
  by (simp add: raised_def)

lemma raised_Max:
  assumes "raised S (replicate n 0) b" and "m < n" and "finite (S m)"
  shows "b ! m = Max (insert 0 (S m))"
proof -
  have "0 \<le> b ! m" "\<forall>v\<in>S m. v \<le> b ! m" "b ! m = 0 \<or> b ! m \<in> S m"
    using assms(1,2) by (auto simp: raised_def)
  then show ?thesis using assms(3) by (intro Max_eqI [symmetric]) auto
qed

lemma merge_points_nth:
  "k + length p \<le> length points \<Longrightarrow>
   \<exists>points'. merge_points k p points = Inr points' \<and> length points' = length points \<and>
     (\<forall>m<length points. points' ! m =
        (if k \<le> m \<and> m < k + length p then max (points ! m) (p ! (m - k)) else points ! m))"
proof (induction p arbitrary: k points)
  case Nil
  then show ?case by simp
next
  case (Cons x xs)
  let ?q = "points[k := max (points ! k) x]"
  have k: "k < length points" using Cons.prems by simp
  have "Suc k + length xs \<le> length ?q" using Cons.prems by simp
  from Cons.IH [OF this] obtain r where r: "merge_points (Suc k) xs ?q = Inr r"
    "length r = length ?q"
    "\<forall>m<length ?q. r ! m =
        (if Suc k \<le> m \<and> m < Suc k + length xs then max (?q ! m) (xs ! (m - Suc k)) else ?q ! m)"
    by blast
  have "merge_points k (x # xs) points = Inr r" using k r(1) by simp
  moreover have "length r = length points" using r(2) by simp
  moreover have "\<forall>m<length points. r ! m =
        (if k \<le> m \<and> m < k + length (x # xs) then max (points ! m) ((x # xs) ! (m - k)) else points ! m)"
  proof (intro allI impI)
    fix m assume m: "m < length points"
    show "r ! m = (if k \<le> m \<and> m < k + length (x # xs) then max (points ! m) ((x # xs) ! (m - k)) else points ! m)"
    proof (cases "m = k")
      case True
      then show ?thesis using r(3) m by simp
    next
      case False
      then have "?q ! m = points ! m" by simp
      moreover have "Suc k \<le> m \<Longrightarrow> (x # xs) ! (m - k) = xs ! (m - Suc k)"
        by (simp add: Suc_diff_le)
      ultimately show ?thesis using r(3) m False by auto
    qed
  qed
  ultimately show ?case by blast
qed

lemma merge_points_raised:
  assumes "k + length p \<le> length points"
  shows "\<exists>points'. merge_points k p points = Inr points' \<and>
     raised (\<lambda>m. {p ! (m - k) | j. k \<le> m \<and> m - k < length p}) points points'"
proof -
  from merge_points_nth [OF assms] obtain r where r: "merge_points k p points = Inr r"
    "length r = length points"
    "\<forall>m<length points. r ! m =
        (if k \<le> m \<and> m < k + length p then max (points ! m) (p ! (m - k)) else points ! m)"
    by blast
  have "raised (\<lambda>m. {p ! (m - k) | j. k \<le> m \<and> m - k < length p}) points r"
    unfolding raised_def using r(2,3) by (auto simp: max_def)
  with r(1) show ?thesis by blast
qed

lemma bounded_child: "bounded d t \<Longrightarrow> child t c = Some t' \<Longrightarrow> bounded (Suc d) t'"
  unfolding bounded_def
proof (intro allI impI)
  fix cs p
  assume a: "\<forall>cs p. lookup t cs = Some p \<longrightarrow> length p \<le> d + length cs + 1"
    and c: "child t c = Some t'" and l: "lookup t' cs = Some p"
  from c l have "lookup t (c # cs) = Some p" by (simp add: lookup_Cons)
  with a have "length p \<le> d + length (c # cs) + 1" by blast
  then show "length p \<le> Suc d + length cs + 1" by simp
qed

lemma bounded_points: "bounded d t \<Longrightarrow> points_of t = Some p \<Longrightarrow> length p \<le> d + 1"
  unfolding bounded_def using lookup_Nil [of t] by fastforce

lemma walk_weights_Nil: "walk_weights i t [] m = {}"
  by (simp add: walk_weights_def)

lemma walk_weights_stop: "child t c = None \<Longrightarrow> walk_weights i t (c # cs) m = {}"
  by (auto simp: walk_weights_def lookup_Cons take_Cons split: nat.splits)

lemma walk_weights_step:
  assumes "child t c = Some t'"
  shows "walk_weights i t (c # cs) m =
     {p ! (m - i) | p. points_of t' = Some p \<and> i \<le> m \<and> m - i < length p} \<union> walk_weights i t' cs m"
    (is "?L = ?A \<union> ?B")
proof (intro set_eqI iffI)
  fix v assume "v \<in> ?L"
  then obtain n p where np: "0 < n" "n \<le> length (c # cs)" "lookup t (take n (c # cs)) = Some p"
    "i \<le> m" "m - i < length p" "v = p ! (m - i)"
    by (auto simp: walk_weights_def)
  from np(1) obtain n' where n': "n = Suc n'" by (cases n) auto
  with np(3) assms have l: "lookup t' (take n' cs) = Some p" by (simp add: lookup_Cons)
  show "v \<in> ?A \<union> ?B"
  proof (cases n')
    case 0
    with l have "points_of t' = Some p" by (simp add: lookup_Nil)
    with np show ?thesis by auto
  next
    case (Suc k)
    with l np n' have "v \<in> ?B" unfolding walk_weights_def by auto
    then show ?thesis by simp
  qed
next
  fix v assume "v \<in> ?A \<union> ?B"
  then show "v \<in> ?L"
  proof
    assume "v \<in> ?A"
    then obtain p where p: "points_of t' = Some p" "i \<le> m" "m - i < length p" "v = p ! (m - i)"
      by auto
    have "lookup t (take 1 (c # cs)) = Some p" using assms p(1) by (simp add: lookup_Cons lookup_Nil)
    with p show ?thesis unfolding walk_weights_def
      by (intro CollectI exI [of _ 1] exI [of _ p]) simp
  next
    assume "v \<in> ?B"
    then obtain n p where np: "0 < n" "n \<le> length cs" "lookup t' (take n cs) = Some p"
      "i \<le> m" "m - i < length p" "v = p ! (m - i)"
      by (auto simp: walk_weights_def)
    have "lookup t (take (Suc n) (c # cs)) = Some p" using assms np(3) by (simp add: lookup_Cons)
    with np show ?thesis unfolding walk_weights_def
      by (intro CollectI exI [of _ "Suc n"] exI [of _ p]) simp
  qed
qed

lemma walk_raised:
  "bounded d t \<Longrightarrow> i + d + length cs + 1 \<le> length points \<Longrightarrow>
   \<exists>points'. walk i t cs points = Inr points' \<and> raised (walk_weights i t cs) points points'"
proof (induction cs arbitrary: t d points)
  case Nil
  have "raised (walk_weights i t []) points points"
    using raised_refl [of points] by (rule raised_cong) (simp add: walk_weights_Nil)
  then show ?case by simp
next
  case (Cons c cs)
  show ?case
  proof (cases "child t c")
    case None
    have "raised (walk_weights i t (c # cs)) points points"
      using raised_refl [of points] by (rule raised_cong) (simp add: walk_weights_stop [OF None])
    then show ?thesis using None by simp
  next
    case (Some t')
    have b': "bounded (Suc d) t'" using Cons.prems(1) Some by (rule bounded_child)
    show ?thesis
    proof (cases "points_of t'")
      case None
      have "i + Suc d + length cs + 1 \<le> length points" using Cons.prems(2) by simp
      from Cons.IH [OF b' this] obtain r where r: "walk i t' cs points = Inr r"
        "raised (walk_weights i t' cs) points r" by blast
      have "raised (walk_weights i t (c # cs)) points r"
        using r(2) by (rule raised_cong) (simp add: walk_weights_step [OF Some] None)
      then show ?thesis using Some None r(1) by simp
    next
      case (Some p)
      have "length p \<le> Suc d + 1" using b' Some by (rule bounded_points)
      then have "i + length p \<le> length points" using Cons.prems(2) by simp
      from merge_points_raised [OF this] obtain q where q: "merge_points i p points = Inr q"
        "raised (\<lambda>m. {p ! (m - i) | j. i \<le> m \<and> m - i < length p}) points q" by blast
      have "length q = length points" using q(2) by (simp add: raised_def)
      then have "i + Suc d + length cs + 1 \<le> length q" using Cons.prems(2) by simp
      from Cons.IH [OF b' this] obtain r where r: "walk i t' cs q = Inr r"
        "raised (walk_weights i t' cs) q r" by blast
      have "raised (walk_weights i t (c # cs)) points r"
        using raised_trans [OF q(2) r(2)]
        by (rule raised_cong) (auto simp: walk_weights_step [OF \<open>child t c = Some t'\<close>] Some)
      then show ?thesis using \<open>child t c = Some t'\<close> Some q(1) r(1) by simp
    qed
  qed
qed

lemma scan_weights_Nil: "scan_weights i t [] m = {}"
  by (simp add: scan_weights_def)

lemma scan_weights_Cons:
  "scan_weights i t (c # cs) m = walk_weights i t (c # cs) m \<union> scan_weights (Suc i) t cs m"
  by (simp add: scan_weights_def lessThan_Suc_eq_insert_0 image_comp)

lemma scan_raised:
  "bounded 0 t \<Longrightarrow> i + length cs + 1 \<le> length points \<Longrightarrow>
   \<exists>points'. scan t i cs points = Inr points' \<and> raised (scan_weights i t cs) points points'"
proof (induction cs arbitrary: i points)
  case Nil
  have "raised (scan_weights i t []) points points"
    using raised_refl [of points] by (rule raised_cong) (simp add: scan_weights_Nil)
  then show ?case by simp
next
  case (Cons c cs)
  have "i + 0 + length (c # cs) + 1 \<le> length points" using Cons.prems(2) by simp
  from walk_raised [OF Cons.prems(1) this] obtain q where q: "walk i t (c # cs) points = Inr q"
    "raised (walk_weights i t (c # cs)) points q" by blast
  have "length q = length points" using q(2) by (simp add: raised_def)
  then have "Suc i + length cs + 1 \<le> length q" using Cons.prems(2) by simp
  from Cons.IH [OF Cons.prems(1) this] obtain r where r: "scan t (Suc i) cs q = Inr r"
    "raised (scan_weights (Suc i) t cs) q r" by blast
  have "raised (scan_weights i t (c # cs)) points r"
    using raised_trans [OF q(2) r(2)] by (rule raised_cong) (simp add: scan_weights_Cons)
  then show ?case using q(1) r(1) by simp
qed

lemma slot_weights_scan: "slot_weights t work k = scan_weights 0 t work k"
proof (intro set_eqI iffI)
  fix v assume "v \<in> slot_weights t work k"
  then obtain i n p j where a: "i < length work" "0 < n" "i + n \<le> length work"
    "lookup t (take n (drop i work)) = Some p" "j < length p" "i + j = k" "v = p ! j"
    by (auto simp: slot_weights_def)
  then have "v \<in> walk_weights i t (drop i work) k"
    unfolding walk_weights_def by (intro CollectI exI [of _ n] exI [of _ p]) auto
  with a(1) show "v \<in> scan_weights 0 t work k" by (auto simp: scan_weights_def)
next
  fix v assume "v \<in> scan_weights 0 t work k"
  then obtain i where i: "i < length work" "v \<in> walk_weights i t (drop i work) k"
    by (auto simp: scan_weights_def)
  then obtain n p where a: "0 < n" "n \<le> length (drop i work)"
    "lookup t (take n (drop i work)) = Some p" "i \<le> k" "k - i < length p" "v = p ! (k - i)"
    by (auto simp: walk_weights_def)
  show "v \<in> slot_weights t work k"
    unfolding slot_weights_def using i(1) a
    by (intro CollectI exI [of _ i] exI [of _ n] exI [of _ p] exI [of _ "k - i"]) auto
qed

lemma finite_slot_weights: "finite (slot_weights t work k)"
proof -
  have "slot_weights t work k \<subseteq>
      (\<lambda>(i, n). the (lookup t (take n (drop i work))) ! (k - i)) ` ({..<length work} \<times> {..length work})"
  proof
    fix v assume "v \<in> slot_weights t work k"
    then obtain i n p j where a: "i < length work" "0 < n" "i + n \<le> length work"
      "lookup t (take n (drop i work)) = Some p" "j < length p" "i + j = k" "v = p ! j"
      by (auto simp: slot_weights_def)
    have "(i, n) \<in> {..<length work} \<times> {..length work}" using a by simp
    moreover have "v = (\<lambda>(i, n). the (lookup t (take n (drop i work))) ! (k - i)) (i, n)"
      using a by auto
    ultimately show "v \<in> (\<lambda>(i, n). the (lookup t (take n (drop i work))) ! (k - i)) ` ({..<length work} \<times> {..length work})"
      by (rule rev_image_eqI)
  qed
  then show ?thesis by (rule finite_subset) simp
qed

lemma scan_slot_max:
  assumes "bounded 0 t"
  shows "\<exists>points. scan t 0 work (replicate (length work + 1) 0) = Inr points \<and>
     length points = length work + 1 \<and>
     (\<forall>k<length points. points ! k = Max (insert 0 (slot_weights t work k)))"
proof -
  have "0 + length work + 1 \<le> length (replicate (length work + 1) (0::int))" by simp
  from scan_raised [OF assms this] obtain r where
    r: "scan t 0 work (replicate (length work + 1) 0) = Inr r"
    "raised (scan_weights 0 t work) (replicate (length work + 1) 0) r" by blast
  have len: "length r = length work + 1" using r(2) by (simp add: raised_def)
  have "\<forall>k<length r. r ! k = Max (insert 0 (slot_weights t work k))"
  proof (intro allI impI)
    fix k assume "k < length r"
    then have "k < length work + 1" using len by simp
    moreover have "finite (scan_weights 0 t work k)"
      using finite_slot_weights [of t work k] by (simp add: slot_weights_scan)
    ultimately show "r ! k = Max (insert 0 (slot_weights t work k))"
      using raised_Max [OF r(2)] by (simp add: slot_weights_scan)
  qed
  with r(1) len show ?thesis by blast
qed

lemma length_re_split: "length (re_split sep s) = Suc (length (filter sep s))"
  by (induction s) (auto split: list.splits)

lemma re_split_nonempty: "re_split sep s \<noteq> []"
  using length_re_split [of sep s] by auto

lemma int_all_length: "int_all pint ds = Inr ns \<Longrightarrow> length ns = length ds"
  by (induction ds arbitrary: ns) (auto split: option.splits sum.splits if_splits)

lemma letter_not_digit: "is_pattern_letter c \<Longrightarrow> \<not> is_digit c"
  by (auto simp: is_pattern_letter_def is_digit_def is_az_def)

lemma letters_le_chars: "length (filter is_pattern_letter s) \<le> length (pattern_chars s)"
proof -
  have "filter is_pattern_letter s = filter is_pattern_letter (pattern_chars s)"
    unfolding pattern_chars_def by (simp add: conj_commute letter_not_digit cong: conj_cong)
  then show ?thesis by (metis length_filter_le)
qed

lemma pattern_points_length:
  "pattern_points pint pattern = Inr p \<Longrightarrow> length p \<le> length (pattern_chars pattern) + 1"
  using int_all_length [of pint "re_split is_pattern_letter pattern" p]
    letters_le_chars [of pattern]
  by (simp add: pattern_points_def length_re_split)

lemma lookup_insert_patterns:
  "insert_patterns pint toks t = Inr t' \<Longrightarrow> lookup t' cs = Some p \<Longrightarrow>
   lookup t cs = Some p \<or>
   (\<exists>tok\<in>set toks. pattern_chars tok = cs \<and> pattern_points pint tok = Inr p)"
proof (induction toks arbitrary: t)
  case Nil
  then show ?case by simp
next
  case (Cons tok toks)
  from Cons.prems(1) obtain q where q: "pattern_points pint tok = Inr q"
    and r: "insert_patterns pint toks (insert_chars (pattern_chars tok) q t) = Inr t'"
    by (auto simp: insert_pattern_def split: sum.splits)
  from Cons.IH [OF r Cons.prems(2)] show ?case
    using q by (auto simp: lookup_insert_chars split: if_splits)
qed

lemma Hyphenator_bounded:
  assumes "Hyphenator pint patterns excs = Inr h"
  shows "bounded 0 (tree h)"
  unfolding bounded_def
proof (intro allI impI)
  fix cs p assume l: "lookup (tree h) cs = Some p"
  from assms have "insert_patterns pint (str_split patterns) empty_tree = Inr (tree h)"
    by (auto simp: Hyphenator_def split: sum.splits)
  from lookup_insert_patterns [OF this l] obtain tok
    where "pattern_chars tok = cs" "pattern_points pint tok = Inr p"
    by (auto simp: lookup_empty_tree)
  then show "length p \<le> 0 + length cs + 1" using pattern_points_length by fastforce
qed

section \<open>From the constructor to the scan\<close>

lemmas run_defs = ustr_def Hyphenator_def str_split_def isspace_def insert_pattern_def
  pattern_points_def is_pattern_letter_def is_az_def dec_int_def dec_value_def is_digit_def
  pattern_chars_def empty_tree_def hyphenate_word_def hyphenate_word_as_string_def
  word_points_def ascii_lower_def exception_key_def exception_points_def
  hyphenate_with_def points_with_def as_string_with_def

lemma word_points_scan:
  assumes "Hyphenator pint patterns excs = Inr h" and "exceptions h (lower word) = None"
  shows "\<exists>points. word_points lower h word = Inr points \<and>
     length points = length (lower word) + 3 \<and>
     (\<forall>k<length points. points ! k = Max (insert 0 (slot_weights (tree h) (46 # lower word @ [46]) k)))"
proof -
  have "word_points lower h word =
      scan (tree h) 0 (46 # lower word @ [46]) (replicate (length (46 # lower word @ [46]) + 1) 0)"
    using assms(2) by (simp add: word_points_def Let_def del: scan.simps replicate.simps)
  moreover from scan_slot_max [OF Hyphenator_bounded [OF assms(1)], of "46 # lower word @ [46]"]
  obtain r where r: "scan (tree h) 0 (46 # lower word @ [46])
        (replicate (length (46 # lower word @ [46]) + 1) 0) = Inr r"
    "length r = length (46 # lower word @ [46]) + 1"
    "\<forall>k<length r. r ! k = Max (insert 0 (slot_weights (tree h) (46 # lower word @ [46]) k))"
    by blast
  ultimately have "word_points lower h word = Inr r" by (simp only:)
  moreover have "length r = length (lower word) + 3" using r(2) by simp
  ultimately show ?thesis using r(3) by blast
qed

lemma word_points_total:
  assumes "Hyphenator pint patterns excs = Inr h"
  shows "\<exists>points. word_points lower h word = Inr points"
proof (cases "exceptions h (lower word)")
  case None
  with word_points_scan [of pint patterns excs h lower word] assms show ?thesis by blast
next
  case (Some p)
  then show ?thesis by (simp add: word_points_def)
qed

section \<open>Lemmas on spellings and exceptions\<close>

lemma re_split_nth: "k \<le> length (filter sep s) \<Longrightarrow> re_split sep s ! k = gap sep s k"
proof (induction s arbitrary: k)
  case Nil
  then show ?case by simp
next
  case (Cons c cs)
  show ?case
  proof (cases "sep c")
    case True
    then show ?thesis using Cons by (cases k) simp_all
  next
    case False
    obtain s0 ss where r: "re_split sep cs = s0 # ss"
      using re_split_nonempty [of sep cs] by (cases "re_split sep cs") auto
    have k: "k \<le> length (filter sep cs)" using Cons.prems False by simp
    show ?thesis
    proof (cases k)
      case 0
      have "re_split sep cs ! 0 = gap sep cs 0" by (rule Cons.IH) simp
      then show ?thesis using False r 0 by simp
    next
      case (Suc j)
      have "re_split sep cs ! k = gap sep cs k" using k by (rule Cons.IH)
      then show ?thesis using False r Suc by simp
    qed
  qed
qed

lemma add_exceptions_last:
  "\<forall>e\<in>set post. exception_key e \<noteq> exception_key ex \<Longrightarrow>
   add_exceptions (pre @ ex # post) m (exception_key ex) = Some (exception_points ex)"
proof (induction pre arbitrary: m)
  case Nil
  have "\<forall>e\<in>set post. exception_key e \<noteq> k \<Longrightarrow> add_exceptions post m' k = m' k" for m' k
    by (induction post arbitrary: m') auto
  with Nil show ?case by simp
next
  case (Cons a pre)
  then show ?case by simp
qed

lemma Hyphenator_exceptions:
  "Hyphenator pint patterns excs = Inr h \<Longrightarrow>
   exceptions h = add_exceptions (str_split excs) Map.empty"
  by (auto simp: Hyphenator_def split: sum.splits)

lemma exception_points_length:
  "length (exception_points ex) = length (filter is_az ex) + 2"
  by (simp add: exception_points_def length_re_split)

lemma exception_points_nth:
  "i \<le> length (filter is_az ex) \<Longrightarrow>
   exception_points ex ! (i + 1) = (if gap is_az ex i = [45] then 1 else 0)"
  by (simp add: exception_points_def length_re_split re_split_nth)

lemma exception_key_az:
  "list_all (\<lambda>c. is_az c \<or> c = 45) ex \<Longrightarrow> exception_key ex = filter is_az ex"
  unfolding exception_key_def
  by (induction ex) (auto simp: is_az_def)

lemma hyphenate_word_exception:
  "exceptions h (lower word) = Some points \<Longrightarrow>
   hyphenate_word lower h word = Inr (build_pieces (zip word (drop 2 points)) [[]])"
  by (simp add: hyphenate_word_def word_points_def)

lemma Hyphenator_no_patterns:
  "str_split patterns = [] \<Longrightarrow> Hyphenator pint patterns excs = Inr h \<Longrightarrow> tree h = empty_tree"
  by (auto simp: Hyphenator_def)

lemma walk_empty_tree: "walk i empty_tree cs points = Inr points"
  by (cases cs) (simp_all add: empty_tree_def)

lemma scan_empty_tree: "scan empty_tree i cs points = Inr points"
  by (induction cs arbitrary: i) (simp_all add: walk_empty_tree del: walk.simps)

lemma build_pieces_single:
  assumes "length word \<le> length ps" and "\<forall>k<length word. even (ps ! k)"
  shows "build_pieces (zip word ps) [[]] = [word]"
proof -
  have "list_all (\<lambda>z. even (snd z)) (zip word ps)"
    using assms(2) by (auto simp: list_all_length)
  then have "build_pieces (zip word ps) [[]] = [map fst (zip word ps)]"
    using build_pieces_even [of "[[]]" "zip word ps"] by simp
  moreover have "map fst (zip word ps) = word"
    using assms(1) by (simp add: map_fst_zip_take)
  ultimately show ?thesis by simp
qed

lemma int_all_error: "int_all pint ds = Inl e \<Longrightarrow> e = ValueError"
  by (induction ds arbitrary: e) (auto split: option.splits sum.splits if_splits)

lemma pattern_points_error: "pattern_points pint pattern = Inl e \<Longrightarrow> e = ValueError"
  unfolding pattern_points_def by (rule int_all_error)

lemma insert_patterns_fold:
  "insert_patterns pint toks t =
     (if list_all (\<lambda>tok. pattern_points pint tok \<noteq> Inl ValueError) toks
      then Inr (fold (insert_parsed pint) toks t) else Inl ValueError)"
proof (induction toks arbitrary: t)
  case Nil
  then show ?case by simp
next
  case (Cons tok toks)
  show ?case
  proof (cases "pattern_points pint tok")
    case (Inl e)
    then have "e = ValueError" by (rule pattern_points_error)
    with Inl show ?thesis by (simp add: insert_pattern_def)
  next
    case (Inr p)
    then have "insert_parsed pint tok t = insert_chars (pattern_chars tok) p t"
      by (simp add: insert_parsed_def)
    then show ?thesis using Inr Cons.IH by (simp add: insert_pattern_def)
  qed
qed

lemma insert_parsed_commute:
  "pattern_chars x \<noteq> pattern_chars y \<Longrightarrow>
   insert_parsed pint y (insert_parsed pint x t) = insert_parsed pint x (insert_parsed pint y t)"
  by (auto simp: insert_parsed_def insert_chars_commute split: sum.splits)

lemma insert_parsed_idem:
  "insert_parsed pint x (insert_parsed pint x t) = insert_parsed pint x t"
  by (auto simp: insert_parsed_def insert_chars_overwrite split: sum.splits)

lemma insert_parsed_idem_on:
  assumes "inj_on pattern_chars S"
  shows "comp_fun_idem_on S (insert_parsed pint)"
proof (intro comp_fun_idem_on.intro comp_fun_commute_on.intro comp_fun_idem_on_axioms.intro)
  fix x y assume "x \<in> S" "y \<in> S"
  show "insert_parsed pint y \<circ> insert_parsed pint x = insert_parsed pint x \<circ> insert_parsed pint y"
  proof (cases "x = y")
    case True
    then show ?thesis by simp
  next
    case False
    then have "pattern_chars x \<noteq> pattern_chars y"
      using assms \<open>x \<in> S\<close> \<open>y \<in> S\<close> by (auto dest: inj_onD)
    then show ?thesis by (auto simp: fun_eq_iff insert_parsed_commute)
  qed
next
  fix x assume "x \<in> S"
  show "insert_parsed pint x \<circ> insert_parsed pint x = insert_parsed pint x"
    by (simp add: fun_eq_iff insert_parsed_idem)
qed

lemma fold_insert_parsed_set:
  assumes "set ps = set qs" and "inj_on pattern_chars (set ps)"
  shows "fold (insert_parsed pint) ps t = fold (insert_parsed pint) qs t"
proof -
  note I = insert_parsed_idem_on [OF assms(2), of pint]
  have "fold (insert_parsed pint) ps t = Finite_Set.fold (insert_parsed pint) t (set ps)"
    by (rule comp_fun_idem_on.fold_set_fold [OF I, symmetric]) simp
  also have "\<dots> = Finite_Set.fold (insert_parsed pint) t (set qs)" using assms(1) by simp
  also have "\<dots> = fold (insert_parsed pint) qs t"
    by (rule comp_fun_idem_on.fold_set_fold [OF I]) (simp add: assms(1))
  finally show ?thesis .
qed

lemma insert_patterns_set:
  assumes "set ps = set qs" and "inj_on pattern_chars (set ps)"
  shows "insert_patterns pint ps t = insert_patterns pint qs t"
  using assms fold_insert_parsed_set [OF assms, of pint t]
  by (simp add: insert_patterns_fold list_all_iff)

lemma well_formed_chars:
  "well_formed pattern \<Longrightarrow> pattern_chars pattern = filter is_pattern_letter pattern"
  unfolding well_formed_def pattern_chars_def
  by (induction pattern) (auto simp: letter_not_digit)

lemma well_formed_segments:
  "well_formed s \<Longrightarrow> list_all (list_all is_digit) (re_split is_pattern_letter s)"
  unfolding well_formed_def
  by (induction s) (auto split: list.splits)

lemma dec_value_single: "dec_value [c] = int c - 48"
  by (simp add: dec_value_def)

section \<open>What the pieces concatenate to\<close>

lemma concat_hyphenate_word:
  assumes "word_points lower h word = Inr points"
  shows "\<exists>pieces. hyphenate_word lower h word = Inr pieces \<and>
     concat pieces = take (length points - 2) word"
proof -
  have "concat (build_pieces (zip word (drop 2 points)) [[]]) = map fst (zip word (drop 2 points))"
    using concat_build_pieces [of "[[]]" "zip word (drop 2 points)"] by simp
  also have "\<dots> = take (length points - 2) word"
    by (simp add: map_fst_zip_take min_def)
  finally show ?thesis using assms by (simp add: hyphenate_word_def)
qed

lemma round_trip_scan:
  assumes "Hyphenator pint patterns excs = Inr h" and "exceptions h (lower word) = None"
    and "length word \<le> length (lower word)"
  shows "\<exists>pieces. hyphenate_word lower h word = Inr pieces \<and> concat pieces = word"
proof -
  from word_points_scan [of pint patterns excs h lower word] assms(1,2)
  obtain points where p: "word_points lower h word = Inr points"
    "length points = length (lower word) + 3" by blast
  from concat_hyphenate_word [OF p(1)] p(2) assms(3) show ?thesis by auto
qed

lemma round_trip_exception:
  assumes "exceptions h (lower word) = Some (exception_points ex)"
    and "length word \<le> length (filter is_az ex)"
  shows "\<exists>pieces. hyphenate_word lower h word = Inr pieces \<and> concat pieces = word"
proof -
  have "word_points lower h word = Inr (exception_points ex)"
    using assms(1) by (simp add: word_points_def)
  from concat_hyphenate_word [OF this] assms(2) show ?thesis
    by (auto simp: exception_points_length)
qed

section \<open>Lemmas on the parse of a pattern\<close>

lemma split_acc_no_space:
  "list_all (\<lambda>c. \<not> isspace c) s \<Longrightarrow>
   split_acc cur s = (if cur @ s = [] then [] else [cur @ s])"
  by (induction s arbitrary: cur) auto

lemma re_split_run:
  "\<not> sep d \<Longrightarrow>
   re_split sep (replicate n d @ rest) =
     (replicate n d @ hd (re_split sep rest)) # tl (re_split sep rest)"
proof (induction n)
  case 0
  then show ?case using re_split_nonempty [of sep rest] by simp
next
  case (Suc n)
  then show ?case by simp
qed

lemma int_all_runs:
  "list_all (\<lambda>d. d = [] \<or> pint d = Some (dec_value d)) segs \<Longrightarrow>
   int_all pint segs = Inr (map (\<lambda>d. if d = [] then 0 else dec_value d) segs)"
  by (induction segs) auto

lemma reads_runs_segments:
  assumes "reads_runs pint pattern"
  shows "list_all (\<lambda>d. d = [] \<or> pint d = Some (dec_value d)) (re_split is_pattern_letter pattern)"
  unfolding list_all_length
proof (intro allI impI)
  fix k assume "k < length (re_split is_pattern_letter pattern)"
  then have "k \<le> length (filter is_pattern_letter pattern)" by (simp add: length_re_split)
  then have "re_split is_pattern_letter pattern ! k = gap is_pattern_letter pattern k"
    by (rule re_split_nth)
  with assms show "re_split is_pattern_letter pattern ! k = [] \<or>
      pint (re_split is_pattern_letter pattern ! k) =
        Some (dec_value (re_split is_pattern_letter pattern ! k))"
    by (auto simp: reads_runs_def)
qed

lemma reads_runs_points:
  assumes "reads_runs pint pattern"
  shows "pattern_points pint pattern =
     Inr (map (\<lambda>d. if d = [] then 0 else dec_value d) (re_split is_pattern_letter pattern))"
  unfolding pattern_points_def
  using reads_runs_segments [OF assms] by (rule int_all_runs)

lemma reads_runs_points_length:
  assumes "reads_runs pint pattern" and "well_formed pattern" and "pattern_points pint pattern = Inr p"
  shows "length p = length (pattern_chars pattern) + 1"
  using assms(3)
  by (auto simp: reads_runs_points [OF assms(1)] well_formed_chars [OF assms(2)] length_re_split)

lemma reads_runs_points_nth:
  assumes "reads_runs pint pattern" and "well_formed pattern" and "pattern_points pint pattern = Inr p"
    and "k \<le> length (pattern_chars pattern)"
  shows "p ! k = (if gap is_pattern_letter pattern k = [] then 0
                  else dec_value (gap is_pattern_letter pattern k))"
proof -
  have k: "k \<le> length (filter is_pattern_letter pattern)"
    using assms(4) by (simp add: well_formed_chars [OF assms(2)])
  then have "k < length (re_split is_pattern_letter pattern)" by (simp add: length_re_split)
  then show ?thesis
    using assms(3) re_split_nth [OF k]
    by (auto simp: reads_runs_points [OF assms(1)])
qed

lemma gap_length: "length (gap sep s k) \<le> length s"
  by (induction s arbitrary: k) (auto split: nat.splits intro: le_SucI)

lemma gap_digits: "well_formed s \<Longrightarrow> list_all is_digit (gap is_pattern_letter s k)"
  unfolding well_formed_def
  by (induction s arbitrary: k) (auto split: nat.splits)

lemma limited_int_reads_runs:
  assumes "well_formed pattern" and "length pattern \<le> 4300"
  shows "reads_runs limited_int pattern"
  unfolding reads_runs_def limited_int_def
  using gap_digits [OF assms(1)] gap_length [of is_pattern_letter pattern] assms(2)
  by (auto intro: order_trans)

lemma limited_int_reads_short_runs:
  assumes "well_formed pattern" and "\<forall>k. length (gap is_pattern_letter pattern k) \<le> 4300"
  shows "reads_runs limited_int pattern"
  unfolding reads_runs_def limited_int_def
  using gap_digits [OF assms(1)] assms(2) by auto

section \<open>The properties\<close>

text \<open>
  C8.  For every Hyphenator the constructor returns and every string, \<open>hyphenate_word\<close>
  returns a list of pieces and raises no error.  (Every function of the model is a
  structural recursion, so the call ends; the one exception its body could raise is the
  IndexError of the assignment to \<open>points\<close>, and the bound on the stored lists rules it out.)
\<close>
theorem hyphenate_word_total:
  "Hyphenator pint patterns excs = Inr h \<Longrightarrow> \<exists>pieces. hyphenate_word lower h word = Inr pieces"
  using word_points_total [of pint patterns excs h lower word]
  by (auto simp: hyphenate_word_def)

text \<open>C8 at two patterns and one exception, on a word with upper case, a digit and
  punctuation.\<close>
theorem hyphenate_word_total_witness:
  "\<exists>h. Hyphenator dec_int (ustr ''a1b .c2'') (ustr ''as-so-ciate'') = Inr h \<and>
       (\<exists>pieces. hyphenate_word ascii_lower h (ustr ''Ab-1, c!'') = Inr pieces)"
proof -
  have "\<exists>h. Hyphenator dec_int (ustr ''a1b .c2'') (ustr ''as-so-ciate'') = Inr h"
    by (simp add: run_defs)
  then obtain h where h: "Hyphenator dec_int (ustr ''a1b .c2'') (ustr ''as-so-ciate'') = Inr h" ..
  from hyphenate_word_total [OF h] h show ?thesis by blast
qed

text \<open>
  C9.  For every Hyphenator the constructor returns, \<open>hyphenate_word\<close> of the empty string
  is the list holding one piece, the empty string, and \<open>hyphenate_word_as_string\<close> of the
  empty string is the empty string.
\<close>
theorem hyphenate_empty_word:
  "Hyphenator pint patterns excs = Inr h \<Longrightarrow>
   hyphenate_word lower h [] = Inr [[]] \<and> hyphenate_word_as_string lower h [] = Inr []"
  using word_points_total [of pint patterns excs h lower "[]"]
  by (auto simp: hyphenate_word_def hyphenate_word_as_string_def)

text \<open>C9 at two patterns and one exception.\<close>
theorem hyphenate_empty_word_witness:
  "\<exists>h. Hyphenator dec_int (ustr ''a1b .c2'') (ustr ''as-so-ciate'') = Inr h \<and>
       hyphenate_word ascii_lower h [] = Inr [[]] \<and>
       hyphenate_word_as_string ascii_lower h [] = Inr []"
proof -
  have "\<exists>h. Hyphenator dec_int (ustr ''a1b .c2'') (ustr ''as-so-ciate'') = Inr h"
    by (simp add: run_defs)
  then obtain h where h: "Hyphenator dec_int (ustr ''a1b .c2'') (ustr ''as-so-ciate'') = Inr h" ..
  from hyphenate_empty_word [OF h] h show ?thesis by blast
qed

text \<open>
  C10.  Pieces can be empty: with the single pattern \<^verbatim>\<open>a1.\<close> and the word \<^verbatim>\<open>a\<close>, the point
  after the last character is 1, \<open>hyphenate_word\<close> returns the pieces \<^verbatim>\<open>a\<close> and the empty
  string, \<open>hyphenate_word_as_string\<close> returns \<^verbatim>\<open>a-\<close>, and the pieces still concatenate
  to the word.
\<close>

theorem trailing_empty_piece:
  "points_with dec_int ascii_lower (ustr ''a1.'') [] (ustr ''a'') = Inr [0, 0, 1, 0] \<and>
   odd ([0, 0, 1, 0 :: int] ! (length (ustr ''a'') + 1)) \<and>
   hyphenate_with dec_int ascii_lower (ustr ''a1.'') [] (ustr ''a'') = Inr [ustr ''a'', []] \<and>
   as_string_with dec_int ascii_lower (ustr ''a1.'') [] (ustr ''a'') = Inr (ustr ''a-'') \<and>
   ustr ''a'' \<noteq> [] \<and> last [ustr ''a'', []] = [] \<and>
   concat [ustr ''a'', []] = ustr ''a''"
  by (simp add: run_defs)

text \<open>
  C3.  When the word is not an exception, the scan returns a vector with one slot per
  offset of the padded word and one more, and every slot holds the maximum of 0 and of
  the weights that the patterns found on the walks from all start offsets give to that
  slot.  In particular a slot to which the patterns give 1 and 2, and nothing larger,
  holds 2.
\<close>
theorem scan_takes_maximum:
  assumes "Hyphenator pint patterns excs = Inr h" and "exceptions h (lower word) = None"
  shows "\<exists>points. word_points lower h word = Inr points \<and>
     length points = length (lower word) + 3 \<and>
     (\<forall>k<length points.
        points ! k = Max (insert 0 (slot_weights (tree h) (46 # lower word @ [46]) k)) \<and>
        (1 \<in> slot_weights (tree h) (46 # lower word @ [46]) k \<and>
         2 \<in> slot_weights (tree h) (46 # lower word @ [46]) k \<and>
         (\<forall>v\<in>slot_weights (tree h) (46 # lower word @ [46]) k. v \<le> 2) \<longrightarrow> points ! k = 2))"
proof -
  from word_points_scan [of pint patterns excs h lower word] assms obtain points where p: "word_points lower h word = Inr points"
    "length points = length (lower word) + 3"
    "\<forall>k<length points. points ! k = Max (insert 0 (slot_weights (tree h) (46 # lower word @ [46]) k))"
    by blast
  have "1 \<in> S \<and> 2 \<in> S \<and> (\<forall>v\<in>S. v \<le> 2) \<longrightarrow> Max (insert 0 S) = 2" if "finite S" for S :: "int set"
    using that by (auto intro!: Max_eqI)
  with p(3) finite_slot_weights have "\<forall>k<length points.
        points ! k = Max (insert 0 (slot_weights (tree h) (46 # lower word @ [46]) k)) \<and>
        (1 \<in> slot_weights (tree h) (46 # lower word @ [46]) k \<and>
         2 \<in> slot_weights (tree h) (46 # lower word @ [46]) k \<and>
         (\<forall>v\<in>slot_weights (tree h) (46 # lower word @ [46]) k. v \<le> 2) \<longrightarrow> points ! k = 2)"
    by simp
  with p(1,2) show ?thesis by blast
qed

text \<open>C3 at the overlapping patterns \<^verbatim>\<open>a1b\<close> and \<^verbatim>\<open>a2bc\<close> and the word \<^verbatim>\<open>abc\<close>: the slot
  after \<^verbatim>\<open>a\<close> holds 2.\<close>
theorem scan_takes_maximum_witness:
  "\<exists>h. Hyphenator dec_int (ustr ''a1b a2bc'') [] = Inr h \<and>
       exceptions h (ascii_lower (ustr ''abc'')) = None \<and>
       word_points ascii_lower h (ustr ''abc'') = Inr [0, 0, 2, 0, 0, 0] \<and>
       (\<forall>k<6. [0, 0, 2, 0, 0, 0] ! k =
           Max (insert 0 (slot_weights (tree h) (46 # ascii_lower (ustr ''abc'') @ [46]) k)))"
proof -
  have "\<exists>h. Hyphenator dec_int (ustr ''a1b a2bc'') [] = Inr h \<and>
       exceptions h (ascii_lower (ustr ''abc'')) = None \<and>
       word_points ascii_lower h (ustr ''abc'') = Inr [0, 0, 2, 0, 0, 0]"
    by (simp add: run_defs)
  then obtain h where h: "Hyphenator dec_int (ustr ''a1b a2bc'') [] = Inr h"
    "exceptions h (ascii_lower (ustr ''abc'')) = None"
    "word_points ascii_lower h (ustr ''abc'') = Inr [0, 0, 2, 0, 0, 0]" by blast
  from scan_takes_maximum [of dec_int "ustr ''a1b a2bc''" "[]" h ascii_lower "ustr ''abc''"] h
  have "\<forall>k<6. [0, 0, 2, 0, 0, 0] ! k =
           Max (insert 0 (slot_weights (tree h) (46 # ascii_lower (ustr ''abc'') @ [46]) k))"
    by auto
  with h show ?thesis by blast
qed

text \<open>
  C2.  When the lower-cased word is a key of the exception map, \<open>hyphenate_word\<close> cuts the
  word by the stored vector, and its result is the same whatever tree the Hyphenator
  holds.  In particular, when \<^verbatim>\<open>as-so-ciate\<close> is the last exception registered for its
  word, \<^verbatim>\<open>associate\<close> is cut into \<^verbatim>\<open>as\<close>, \<^verbatim>\<open>so\<close>, \<^verbatim>\<open>ciate\<close> for every set of patterns.
\<close>

theorem exception_precedence:
  "(exceptions h (lower word) = Some points \<longrightarrow>
      hyphenate_word lower h word = Inr (build_pieces (zip word (drop 2 points)) [[]]) \<and>
      (\<forall>t. hyphenate_word lower (h\<lparr>tree := t\<rparr>) word = hyphenate_word lower h word)) \<and>
   (Hyphenator pint patterns excs = Inr h' \<and>
    str_split excs = pre @ ustr ''as-so-ciate'' # post \<and>
    (\<forall>e\<in>set post. exception_key e \<noteq> ustr ''associate'') \<and>
    lower (ustr ''associate'') = ustr ''associate'' \<longrightarrow>
      hyphenate_word lower h' (ustr ''associate'') = Inr [ustr ''as'', ustr ''so'', ustr ''ciate''])"
proof (intro conjI impI allI)
  assume "exceptions h (lower word) = Some points"
  then show "hyphenate_word lower h word = Inr (build_pieces (zip word (drop 2 points)) [[]])"
    by (rule hyphenate_word_exception)
next
  fix t assume "exceptions h (lower word) = Some points"
  then show "hyphenate_word lower (h\<lparr>tree := t\<rparr>) word = hyphenate_word lower h word"
    by (simp add: hyphenate_word_def word_points_def)
next
  assume a: "Hyphenator pint patterns excs = Inr h' \<and>
    str_split excs = pre @ ustr ''as-so-ciate'' # post \<and>
    (\<forall>e\<in>set post. exception_key e \<noteq> ustr ''associate'') \<and>
    lower (ustr ''associate'') = ustr ''associate''"
  have k: "exception_key (ustr ''as-so-ciate'') = ustr ''associate''"
    by (simp add: exception_key_def ustr_def)
  have e: "exceptions h' = add_exceptions (pre @ ustr ''as-so-ciate'' # post) Map.empty"
    using a Hyphenator_exceptions [of pint patterns excs h'] by simp
  have "exceptions h' (ustr ''associate'') = Some (exception_points (ustr ''as-so-ciate''))"
    using a add_exceptions_last [of post "ustr ''as-so-ciate''" pre Map.empty]
    by (simp add: e k)
  then have "exceptions h' (lower (ustr ''associate'')) = Some (exception_points (ustr ''as-so-ciate''))"
    using a by simp
  from hyphenate_word_exception [of h' lower "ustr ''associate''", OF this]
  show "hyphenate_word lower h' (ustr ''associate'') = Inr [ustr ''as'', ustr ''so'', ustr ''ciate'']"
    by (simp add: exception_points_def ustr_def is_az_def)
qed

text \<open>C2 at a Hyphenator whose patterns alone cut \<^verbatim>\<open>associate\<close> after every letter.\<close>

theorem exception_precedence_witness:
  "\<exists>h. Hyphenator dec_int (ustr ''as1sociate a1s1s1o1c1i1a1t1e'') (ustr ''pro-ject as-so-ciate ta-ble'') = Inr h \<and>
     exceptions h (ascii_lower (ustr ''associate'')) = Some [0, 0, 0, 1, 0, 1, 0, 0, 0, 0, 0] \<and>
     hyphenate_word ascii_lower h (ustr ''associate'') = Inr [ustr ''as'', ustr ''so'', ustr ''ciate''] \<and>
     hyphenate_word ascii_lower (h\<lparr>exceptions := Map.empty\<rparr>) (ustr ''associate'') =
       Inr [ustr ''a'', ustr ''s'', ustr ''s'', ustr ''o'', ustr ''c'', ustr ''i'', ustr ''a'', ustr ''t'', ustr ''e'']"
proof -
  have "\<exists>h. Hyphenator dec_int (ustr ''as1sociate a1s1s1o1c1i1a1t1e'') (ustr ''pro-ject as-so-ciate ta-ble'') = Inr h \<and>
     exceptions h (ascii_lower (ustr ''associate'')) = Some [0, 0, 0, 1, 0, 1, 0, 0, 0, 0, 0] \<and>
     hyphenate_word ascii_lower (h\<lparr>exceptions := Map.empty\<rparr>) (ustr ''associate'') =
       Inr [ustr ''a'', ustr ''s'', ustr ''s'', ustr ''o'', ustr ''c'', ustr ''i'', ustr ''a'', ustr ''t'', ustr ''e'']"
    by (simp add: run_defs)
  then obtain h where h:
    "Hyphenator dec_int (ustr ''as1sociate a1s1s1o1c1i1a1t1e'') (ustr ''pro-ject as-so-ciate ta-ble'') = Inr h"
    "exceptions h (ascii_lower (ustr ''associate'')) = Some [0, 0, 0, 1, 0, 1, 0, 0, 0, 0, 0]"
    "hyphenate_word ascii_lower (h\<lparr>exceptions := Map.empty\<rparr>) (ustr ''associate'') =
       Inr [ustr ''a'', ustr ''s'', ustr ''s'', ustr ''o'', ustr ''c'', ustr ''i'', ustr ''a'', ustr ''t'', ustr ''e'']"
    by blast
  have s: "str_split (ustr ''pro-ject as-so-ciate ta-ble'') = [ustr ''pro-ject''] @ ustr ''as-so-ciate'' # [ustr ''ta-ble'']"
    by (simp add: ustr_def str_split_def isspace_def)
  have p: "\<forall>e\<in>set [ustr ''ta-ble'']. exception_key e \<noteq> ustr ''associate''"
    by (simp add: ustr_def exception_key_def)
  have l: "ascii_lower (ustr ''associate'') = ustr ''associate''"
    by (simp add: ustr_def ascii_lower_def)
  from exception_precedence [of h ascii_lower "ustr ''associate''" "[0, 0, 0, 1, 0, 1, 0, 0, 0, 0, 0]"
      dec_int "ustr ''as1sociate a1s1s1o1c1i1a1t1e''" "ustr ''pro-ject as-so-ciate ta-ble''" h
      "[ustr ''pro-ject'']" "[ustr ''ta-ble'']"] h(1,2) s p l
  have "hyphenate_word ascii_lower h (ustr ''associate'') = Inr [ustr ''as'', ustr ''so'', ustr ''ciate'']"
    by blast
  with h show ?thesis by blast
qed

text \<open>
  C1 asks that the pieces concatenate to the word for all patterns and exceptions.  The
  exception \<^verbatim>\<open>ca-\<close>U+00F1 U+00F3\<^verbatim>\<open>n\<close> is written in the alphabet the patterns accept, but
  its points are cut at \<^verbatim>\<open>[a-z]\<close> only: the stored vector has five entries for a word of
  five letters, and \<open>hyphenate_word\<close> returns the single piece \<^verbatim>\<open>ca\<close>U+00F1, losing the last
  two letters.
\<close>

theorem exception_truncates_word:
  "hyphenate_with dec_int ascii_lower [] (ustr ''ca-'' @ [241, 243, 110]) (ustr ''ca'' @ [241, 243, 110])
     = Inr [ustr ''ca'' @ [241]] \<and>
   concat [ustr ''ca'' @ [241]] \<noteq> ustr ''ca'' @ [241, 243, 110]"
  by (simp add: run_defs)

text \<open>
  C4 gives the stored vector the length of the key plus one, with position \<open>i\<close> for the
  boundary after \<open>i\<close> letters.  For the exception \<^verbatim>\<open>a-b\<close> the vector stored under \<^verbatim>\<open>ab\<close> has
  four entries, and the mark of the boundary after one letter is at position 2.
\<close>

theorem exception_vector_counterexample:
  "add_exceptions (str_split (ustr ''a-b'')) Map.empty (ustr ''ab'') = Some [0, 0, 1, 0] \<and>
   length [0, 0, 1, 0 :: int] \<noteq> length (ustr ''ab'') + 1"
  by (simp add: run_defs)

text \<open>
  C4 as the constructor does it.  For a token of the exceptions string written with the
  letters a-z and hyphens, and not followed by another token for the same word, the map
  holds under the token without its hyphens (such a token is its own lower-case form) a
  vector of length \<open>len(key) + 2\<close>: position 0 is 0, and position \<open>i + 1\<close>, for \<open>i\<close> from 0
  to \<open>len(key)\<close>, is 1 if exactly one hyphen is written at the boundary after the first
  \<open>i\<close> letters and 0 otherwise.
\<close>

theorem exception_vector:
  assumes "Hyphenator pint patterns excs = Inr h"
    and "str_split excs = pre @ ex # post"
    and "\<forall>e\<in>set post. exception_key e \<noteq> exception_key ex"
    and "list_all (\<lambda>c. is_az c \<or> c = 45) ex"
  shows "\<exists>v. exceptions h (exception_key ex) = Some v \<and>
     exception_key ex = filter (\<lambda>c. c \<noteq> 45) ex \<and>
     length v = length (exception_key ex) + 2 \<and>
     v ! 0 = 0 \<and>
     (\<forall>i\<le>length (exception_key ex). v ! (i + 1) = (if gap is_az ex i = [45] then 1 else 0))"
proof -
  have "exceptions h = add_exceptions (pre @ ex # post) Map.empty"
    using assms(1,2) Hyphenator_exceptions [of pint patterns excs h] by simp
  then have "exceptions h (exception_key ex) = Some (exception_points ex)"
    using add_exceptions_last [OF assms(3), of pre Map.empty] by simp
  moreover have k: "exception_key ex = filter is_az ex"
    using assms(4) by (rule exception_key_az)
  moreover have "length (exception_points ex) = length (exception_key ex) + 2"
    by (simp add: k exception_points_length)
  moreover have "exception_points ex ! 0 = 0"
    by (simp add: exception_points_def)
  moreover have "\<forall>i\<le>length (exception_key ex).
      exception_points ex ! (i + 1) = (if gap is_az ex i = [45] then 1 else 0)"
    using exception_points_nth [of _ ex] by (simp add: k)
  ultimately show ?thesis by (simp add: exception_key_def)
qed

text \<open>C4 as amended, at the exceptions \<^verbatim>\<open>ta-ble as-so-ciate\<close> and the token \<^verbatim>\<open>ta-ble\<close>.\<close>

theorem exception_vector_witness:
  "\<exists>h v. Hyphenator dec_int (ustr ''a1b'') (ustr ''ta-ble as-so-ciate'') = Inr h \<and>
     exceptions h (ustr ''table'') = Some v \<and> length v = 7 \<and> v ! 0 = 0 \<and>
     v ! 1 = 0 \<and> v ! 2 = 0 \<and> v ! 3 = 1 \<and> v ! 4 = 0 \<and> v ! 5 = 0 \<and> v ! 6 = 0"
proof -
  have "\<exists>h. Hyphenator dec_int (ustr ''a1b'') (ustr ''ta-ble as-so-ciate'') = Inr h"
    by (simp add: run_defs)
  then obtain h where h: "Hyphenator dec_int (ustr ''a1b'') (ustr ''ta-ble as-so-ciate'') = Inr h" ..
  have s: "str_split (ustr ''ta-ble as-so-ciate'') = [] @ ustr ''ta-ble'' # [ustr ''as-so-ciate'']"
    by (simp add: ustr_def str_split_def isspace_def)
  have p: "\<forall>e\<in>set [ustr ''as-so-ciate'']. exception_key e \<noteq> exception_key (ustr ''ta-ble'')"
    by (simp add: ustr_def exception_key_def)
  have a: "list_all (\<lambda>c. is_az c \<or> c = 45) (ustr ''ta-ble'')"
    by (simp add: ustr_def is_az_def)
  have k: "exception_key (ustr ''ta-ble'') = ustr ''table''"
    by (simp add: ustr_def exception_key_def)
  from exception_vector [OF h s p a] obtain v where v:
    "exceptions h (exception_key (ustr ''ta-ble'')) = Some v"
    "length v = length (exception_key (ustr ''ta-ble'')) + 2" "v ! 0 = 0"
    "\<forall>i\<le>length (exception_key (ustr ''ta-ble'')).
        v ! (i + 1) = (if gap is_az (ustr ''ta-ble'') i = [45] then 1 else 0)"
    by blast
  have l: "length (ustr ''table'') = 5" by (simp add: ustr_def)
  have n: "i \<le> 5 \<Longrightarrow> v ! (i + 1) = (if gap is_az (ustr ''ta-ble'') i = [45] then 1 else 0)" for i
    using v(4) unfolding k l by blast
  have "v ! 1 = 0" "v ! 2 = 0" "v ! 3 = 1" "v ! 4 = 0" "v ! 5 = 0" "v ! 6 = 0"
    using n [of 0] n [of 1] n [of 2] n [of 3] n [of 4] n [of 5]
    by (simp_all add: ustr_def is_az_def eval_nat_numeral)
  then have "v ! 1 = 0 \<and> v ! 2 = 0 \<and> v ! 3 = 1 \<and> v ! 4 = 0 \<and> v ! 5 = 0 \<and> v ! 6 = 0" by simp
  moreover have "length v = 7" using v(2) k l by simp
  ultimately show ?thesis using h v(1,3) k by auto
qed

text \<open>
  C6 asks for a single piece when no slot between two letters of the word is odd.  With
  the pattern \<^verbatim>\<open>b1.\<close> and the word \<^verbatim>\<open>ab\<close> the only slot between two letters, slot 2, is 0,
  but the slot after the last letter is 1, and two pieces come back, the second empty.
\<close>

theorem single_piece_counterexample:
  "points_with dec_int ascii_lower (ustr ''b1.'') [] (ustr ''ab'') = Inr [0, 0, 0, 1, 0] \<and>
   even ([0, 0, 0, 1, 0 :: int] ! 2) \<and>
   hyphenate_with dec_int ascii_lower (ustr ''b1.'') [] (ustr ''ab'') = Inr [ustr ''ab'', []] \<and>
   [ustr ''ab'', []] \<noteq> [ustr ''ab'']"
  by (simp add: run_defs)

text \<open>
  C6 as the code does it.  Every Hyphenator returns at least one piece for every word.
  When the vector of points has an entry for every character of the word and none of
  the slots that follow a character of the word, the slot after the last character
  included, is odd, the result is the word as a single piece.  This is so for every word
  that is not an exception when there are no patterns, given that lower-casing does not
  shorten the word.
\<close>

theorem at_least_one_piece:
  "(Hyphenator pint patterns excs = Inr h \<longrightarrow>
      (\<exists>pieces. hyphenate_word lower h word = Inr pieces \<and> 1 \<le> length pieces)) \<and>
   (word_points lower h word = Inr points \<and> length word + 2 \<le> length points \<and>
    (\<forall>k. 2 \<le> k \<and> k < length word + 2 \<longrightarrow> even (points ! k)) \<longrightarrow>
      hyphenate_word lower h word = Inr [word]) \<and>
   (Hyphenator pint patterns excs = Inr h \<and> str_split patterns = [] \<and>
    exceptions h (lower word) = None \<and> length word \<le> length (lower word) \<longrightarrow>
      hyphenate_word lower h word = Inr [word])"
proof (intro conjI impI)
  assume "Hyphenator pint patterns excs = Inr h"
  from word_points_total [OF this, of lower word] obtain ps
    where ps: "word_points lower h word = Inr ps" ..
  have "build_pieces (zip word (drop 2 ps)) [[]] \<noteq> []"
    using build_pieces_nonempty [of "[[]]"] by simp
  then have "1 \<le> length (build_pieces (zip word (drop 2 ps)) [[]])"
    by (cases "build_pieces (zip word (drop 2 ps)) [[]]") simp_all
  then show "\<exists>pieces. hyphenate_word lower h word = Inr pieces \<and> 1 \<le> length pieces"
    using ps by (simp add: hyphenate_word_def)
next
  assume a: "word_points lower h word = Inr points \<and> length word + 2 \<le> length points \<and>
    (\<forall>k. 2 \<le> k \<and> k < length word + 2 \<longrightarrow> even (points ! k))"
  have "build_pieces (zip word (drop 2 points)) [[]] = [word]"
  proof (rule build_pieces_single)
    show "length word \<le> length (drop 2 points)" using a by auto
    show "\<forall>k<length word. even (drop 2 points ! k)"
    proof (intro allI impI)
      fix k assume "k < length word"
      then have "2 \<le> 2 + k \<and> 2 + k < length word + 2" by simp
      with a have "even (points ! (2 + k))" by blast
      moreover have "2 + k \<le> length points" using a \<open>k < length word\<close> by auto
      ultimately show "even (drop 2 points ! k)" by simp
    qed
  qed
  then show "hyphenate_word lower h word = Inr [word]" using a by (simp add: hyphenate_word_def)
next
  assume a: "Hyphenator pint patterns excs = Inr h \<and> str_split patterns = [] \<and>
    exceptions h (lower word) = None \<and> length word \<le> length (lower word)"
  then have "tree h = empty_tree" using Hyphenator_no_patterns by blast
  moreover have "word_points lower h word =
      scan (tree h) 0 (46 # lower word @ [46]) (replicate (length (46 # lower word @ [46]) + 1) 0)"
    using a by (simp add: word_points_def Let_def del: scan.simps replicate.simps)
  moreover define n where "n = length (46 # lower word @ [46]) + 1"
  ultimately have wp: "word_points lower h word = Inr (replicate n 0)"
    by (simp only: scan_empty_tree)
  have n: "length word \<le> n - 2" using a by (simp add: n_def)
  have "build_pieces (zip word (replicate (n - 2) (0::int))) [[]] = [word]"
    using n by (intro build_pieces_single) simp_all
  then show "hyphenate_word lower h word = Inr [word]"
    unfolding hyphenate_word_def wp by (simp only: sum.case drop_replicate)
qed

text \<open>C6 as amended, at no patterns, no exceptions and the word \<^verbatim>\<open>xyz\<close>.\<close>

theorem at_least_one_piece_witness:
  "\<exists>h. Hyphenator dec_int [] [] = Inr h \<and>
       hyphenate_word ascii_lower h (ustr ''xyz'') = Inr [ustr ''xyz''] \<and>
       1 \<le> length [ustr ''xyz'']"
proof -
  have "\<exists>h. Hyphenator dec_int [] [] = Inr h \<and> exceptions h (ascii_lower (ustr ''xyz'')) = None"
    by (simp add: run_defs)
  then obtain h where h: "Hyphenator dec_int [] [] = Inr h"
    "exceptions h (ascii_lower (ustr ''xyz'')) = None" by blast
  have "str_split [] = []" by (simp add: str_split_def)
  moreover have "length (ustr ''xyz'') \<le> length (ascii_lower (ustr ''xyz''))"
    by (simp add: ascii_lower_def)
  ultimately have r: "hyphenate_word ascii_lower h (ustr ''xyz'') = Inr [ustr ''xyz'']"
    using at_least_one_piece [of dec_int "[]" "[]" h ascii_lower "ustr ''xyz''" "[]"] h
    by blast
  with h show ?thesis by simp
qed

text \<open>
  C5 asks that the order of the pattern tokens never matters.  The tokens \<^verbatim>\<open>a1b\<close> and
  \<^verbatim>\<open>a2b\<close> have the same letters, so the one inserted last replaces the other: in one
  order \<^verbatim>\<open>ab\<close> is not cut, in the other it is.
\<close>

theorem insertion_order_counterexample:
  "hyphenate_with dec_int ascii_lower (ustr ''a1b a2b'') [] (ustr ''ab'') = Inr [ustr ''ab''] \<and>
   hyphenate_with dec_int ascii_lower (ustr ''a2b a1b'') [] (ustr ''ab'') = Inr [ustr ''a'', ustr ''b''] \<and>
   [ustr ''ab''] \<noteq> [ustr ''a'', ustr ''b'']"
  by (simp add: run_defs)

text \<open>
  C5 as the code does it.  When no two different tokens have the same letters, two
  pattern strings with the same set of tokens, in any order, give the same Hyphenator,
  hence the same result of \<open>hyphenate_word\<close> for every word.
\<close>

theorem insertion_order:
  assumes "set (str_split patterns1) = set (str_split patterns2)"
    and "inj_on pattern_chars (set (str_split patterns1))"
  shows "Hyphenator pint patterns1 excs = Hyphenator pint patterns2 excs \<and>
     hyphenate_with pint lower patterns1 excs word = hyphenate_with pint lower patterns2 excs word"
  using insert_patterns_set [OF assms, of pint empty_tree]
  by (simp add: Hyphenator_def hyphenate_with_def)

text \<open>C5 as amended, at three patterns given in two orders.\<close>

theorem insertion_order_witness:
  "hyphenate_with dec_int ascii_lower (ustr ''a1b b2c .c1'') [] (ustr ''abc'') =
   hyphenate_with dec_int ascii_lower (ustr ''.c1 a1b b2c a1b'') [] (ustr ''abc'') \<and>
   hyphenate_with dec_int ascii_lower (ustr ''a1b b2c .c1'') [] (ustr ''abc'') = Inr [ustr ''a'', ustr ''bc'']"
proof -
  have s: "set (str_split (ustr ''a1b b2c .c1'')) = set (str_split (ustr ''.c1 a1b b2c a1b''))"
    by (simp add: ustr_def str_split_def isspace_def insert_commute)
  have i: "inj_on pattern_chars (set (str_split (ustr ''a1b b2c .c1'')))"
    by (simp add: ustr_def str_split_def isspace_def pattern_chars_def is_digit_def)
  have "hyphenate_with dec_int ascii_lower (ustr ''a1b b2c .c1'') [] (ustr ''abc'') = Inr [ustr ''a'', ustr ''bc'']"
    by (simp add: run_defs)
  with insertion_order [OF s i, of dec_int "[]" ascii_lower "ustr ''abc''"] show ?thesis by simp
qed

text \<open>
  C7 asks this of every token made of letters of the pattern alphabet and ASCII digits.
  \<^verbatim>\<open>int\<close> refuses a run of more than 4300 digits, so for the token \<^verbatim>\<open>a\<close>, 4301 times
  \<^verbatim>\<open>0\<close>, \<^verbatim>\<open>b\<close> the parse yields no points: \<^verbatim>\<open>_insert_pattern\<close> raises ValueError, and so does
  the constructor.
\<close>

theorem pattern_parse_counterexample:
  "well_formed (97 # replicate 4301 48 @ [98]) \<and>
   pattern_chars (97 # replicate 4301 48 @ [98]) = ustr ''ab'' \<and>
   pattern_points limited_int (97 # replicate 4301 48 @ [98]) = Inl ValueError \<and>
   Hyphenator limited_int (97 # replicate 4301 48 @ [98]) [] = Inl ValueError"
proof -
  let ?tok = "97 # replicate 4301 48 @ [98] :: ustring"
  have w: "well_formed ?tok"
    by (simp add: well_formed_def is_pattern_letter_def is_az_def is_digit_def list_all_iff)
  have c: "pattern_chars ?tok = ustr ''ab''"
    by (simp add: pattern_chars_def is_digit_def ustr_def)
  have "re_split is_pattern_letter (replicate 4301 48 @ [98]) =
      (replicate 4301 48 @ hd (re_split is_pattern_letter [98])) # tl (re_split is_pattern_letter [98])"
    by (rule re_split_run) (simp add: is_pattern_letter_def is_az_def)
  then have r: "re_split is_pattern_letter ?tok = [[], replicate 4301 48, []]"
    by (simp add: is_pattern_letter_def is_az_def)
  have l: "limited_int (replicate 4301 48) = None" by (simp add: limited_int_def)
  have "replicate 4301 (48::nat) \<noteq> []" by simp
  then have p: "pattern_points limited_int ?tok = Inl ValueError"
    unfolding pattern_points_def r using l by simp
  have "list_all (\<lambda>c. \<not> isspace c) ?tok" by (simp add: isspace_def list_all_iff)
  then have "str_split ?tok = [?tok]" by (simp add: str_split_def split_acc_no_space)
  then have "Hyphenator limited_int ?tok [] = Inl ValueError"
    using p by (simp add: Hyphenator_def insert_pattern_def)
  with w c p show ?thesis by blast
qed

text \<open>
  C7 as the code does it.  For a token made of letters of the pattern alphabet and ASCII
  digits, each of whose runs of digits \<^verbatim>\<open>int\<close> reads as its decimal value, the parse of
  \<^verbatim>\<open>_insert_pattern\<close> yields the letters and one point per letter boundary,
  \<open>len(letters) + 1\<close> in all: 0 where nothing is written at the boundary, the digit where
  one digit is written, and the decimal value of the run where several are.
  Consequently, when all tokens of the pattern string are of this kind, the constructor
  succeeds and every list of points stored at depth \<open>d\<close> of the tree has length \<open>d + 1\<close>.
  Under the default limit of \<^verbatim>\<open>int\<close>, a token whose runs have at most 4300 digits is of
  this kind.
\<close>

theorem pattern_parse:
  "(well_formed pattern \<and> reads_runs pint pattern \<longrightarrow>
      (\<exists>points. pattern_points pint pattern = Inr points \<and>
         pattern_chars pattern = filter is_pattern_letter pattern \<and>
         length points = length (pattern_chars pattern) + 1 \<and>
         (\<forall>k\<le>length (pattern_chars pattern).
            (gap is_pattern_letter pattern k = [] \<longrightarrow> points ! k = 0) \<and>
            (\<forall>c. gap is_pattern_letter pattern k = [c] \<longrightarrow> points ! k = int c - 48) \<and>
            (gap is_pattern_letter pattern k \<noteq> [] \<longrightarrow>
               points ! k = dec_value (gap is_pattern_letter pattern k))))) \<and>
    (list_all (\<lambda>tok. well_formed tok \<and> reads_runs pint tok) (str_split patterns) \<longrightarrow>
      (\<exists>h. Hyphenator pint patterns excs = Inr h \<and>
         (\<forall>cs p. lookup (tree h) cs = Some p \<longrightarrow> length p = length cs + 1))) \<and>
    (well_formed pattern \<and> (\<forall>k. length (gap is_pattern_letter pattern k) \<le> 4300) \<longrightarrow>
      reads_runs limited_int pattern)"
proof (intro conjI impI)
  assume a: "well_formed pattern \<and> reads_runs pint pattern"
  then have wf: "well_formed pattern" and rr: "reads_runs pint pattern" by simp_all
  let ?p = "map (\<lambda>d. if d = [] then 0 else dec_value d) (re_split is_pattern_letter pattern)"
  have p: "pattern_points pint pattern = Inr ?p" using rr by (rule reads_runs_points)
  have "pattern_chars pattern = filter is_pattern_letter pattern" using wf by (rule well_formed_chars)
  moreover have "length ?p = length (pattern_chars pattern) + 1"
    using rr wf p by (rule reads_runs_points_length)
  moreover have "\<forall>k\<le>length (pattern_chars pattern).
            (gap is_pattern_letter pattern k = [] \<longrightarrow> ?p ! k = 0) \<and>
            (\<forall>c. gap is_pattern_letter pattern k = [c] \<longrightarrow> ?p ! k = int c - 48) \<and>
            (gap is_pattern_letter pattern k \<noteq> [] \<longrightarrow>
               ?p ! k = dec_value (gap is_pattern_letter pattern k))"
  proof (intro allI impI)
    fix k assume "k \<le> length (pattern_chars pattern)"
    from reads_runs_points_nth [OF rr wf p this]
    show "(gap is_pattern_letter pattern k = [] \<longrightarrow> ?p ! k = 0) \<and>
            (\<forall>c. gap is_pattern_letter pattern k = [c] \<longrightarrow> ?p ! k = int c - 48) \<and>
            (gap is_pattern_letter pattern k \<noteq> [] \<longrightarrow>
               ?p ! k = dec_value (gap is_pattern_letter pattern k))"
      by (auto simp: dec_value_single)
  qed
  ultimately show "\<exists>points. pattern_points pint pattern = Inr points \<and>
         pattern_chars pattern = filter is_pattern_letter pattern \<and>
         length points = length (pattern_chars pattern) + 1 \<and>
         (\<forall>k\<le>length (pattern_chars pattern).
            (gap is_pattern_letter pattern k = [] \<longrightarrow> points ! k = 0) \<and>
            (\<forall>c. gap is_pattern_letter pattern k = [c] \<longrightarrow> points ! k = int c - 48) \<and>
            (gap is_pattern_letter pattern k \<noteq> [] \<longrightarrow>
               points ! k = dec_value (gap is_pattern_letter pattern k)))"
    using p by blast
next
  assume wf: "list_all (\<lambda>tok. well_formed tok \<and> reads_runs pint tok) (str_split patterns)"
  have ok: "list_all (\<lambda>tok. pattern_points pint tok \<noteq> Inl ValueError) (str_split patterns)"
    using wf reads_runs_points [of pint] by (auto simp: list_all_iff)
  let ?t = "fold (insert_parsed pint) (str_split patterns) empty_tree"
  let ?h = "\<lparr>tree = ?t, exceptions = add_exceptions (str_split excs) Map.empty\<rparr>"
  have t: "insert_patterns pint (str_split patterns) empty_tree = Inr ?t"
    using ok by (simp add: insert_patterns_fold)
  then have h: "Hyphenator pint patterns excs = Inr ?h" by (simp add: Hyphenator_def)
  have "\<forall>cs p. lookup (tree ?h) cs = Some p \<longrightarrow> length p = length cs + 1"
  proof (intro allI impI)
    fix cs p assume "lookup (tree ?h) cs = Some p"
    then have "lookup ?t cs = Some p" by simp
    from lookup_insert_patterns [OF t this] obtain tok where tok: "tok \<in> set (str_split patterns)"
      "pattern_chars tok = cs" "pattern_points pint tok = Inr p"
      by (auto simp: lookup_empty_tree)
    from tok(1) wf have "well_formed tok" "reads_runs pint tok" by (simp_all add: list_all_iff)
    from reads_runs_points_length [OF this(2,1) tok(3)] tok(2)
    show "length p = length cs + 1" by simp
  qed
  with h show "\<exists>h. Hyphenator pint patterns excs = Inr h \<and>
         (\<forall>cs p. lookup (tree h) cs = Some p \<longrightarrow> length p = length cs + 1)" by blast
next
  assume "well_formed pattern \<and> (\<forall>k. length (gap is_pattern_letter pattern k) \<le> 4300)"
  then show "reads_runs limited_int pattern" using limited_int_reads_short_runs by blast
qed

text \<open>C7 as amended, at the patterns \<^verbatim>\<open>hy3ph\<close> and \<^verbatim>\<open>.a1b2\<close>, with \<open>limited_int\<close> for
  \<^verbatim>\<open>int\<close>.\<close>

theorem pattern_parse_witness:
  "pattern_points limited_int (ustr ''hy3ph'') = Inr [0, 0, 3, 0, 0] \<and>
   pattern_chars (ustr ''hy3ph'') = ustr ''hyph'' \<and>
   (\<exists>h. Hyphenator limited_int (ustr ''hy3ph .a1b2'') [] = Inr h \<and>
        lookup (tree h) (ustr ''hyph'') = Some [0, 0, 3, 0, 0] \<and>
        length [0, 0, 3, 0, 0 :: int] = length (ustr ''hyph'') + 1)"
proof -
  have w: "well_formed (ustr ''hy3ph'')" "well_formed (ustr ''.a1b2'')"
    by (simp_all add: well_formed_def ustr_def is_pattern_letter_def is_az_def is_digit_def)
  have r: "reads_runs limited_int (ustr ''hy3ph'')" "reads_runs limited_int (ustr ''.a1b2'')"
    using w by (auto intro!: limited_int_reads_runs simp: ustr_def)
  have s: "str_split (ustr ''hy3ph .a1b2'') = [ustr ''hy3ph'', ustr ''.a1b2'']"
    by (simp add: ustr_def str_split_def isspace_def)
  have ws: "list_all (\<lambda>tok. well_formed tok \<and> reads_runs limited_int tok)
      (str_split (ustr ''hy3ph .a1b2''))"
    unfolding s using w r by simp
  have e: "pattern_points limited_int (ustr ''hy3ph'') = Inr [0, 0, 3, 0, 0] \<and>
      pattern_chars (ustr ''hy3ph'') = ustr ''hyph''"
    by (simp add: run_defs limited_int_def)
  from pattern_parse [of "ustr ''hy3ph''" limited_int "ustr ''hy3ph .a1b2''" "[]"] ws
  obtain h where h: "Hyphenator limited_int (ustr ''hy3ph .a1b2'') [] = Inr h"
    "\<forall>cs p. lookup (tree h) cs = Some p \<longrightarrow> length p = length cs + 1" by blast
  have "\<exists>h'. Hyphenator limited_int (ustr ''hy3ph .a1b2'') [] = Inr h' \<and>
      lookup (tree h') (ustr ''hyph'') = Some [0, 0, 3, 0, 0]"
    by (simp add: run_defs limited_int_def lookup_def)
  with h(1) have l: "lookup (tree h) (ustr ''hyph'') = Some [0, 0, 3, 0, 0]" by auto
  with h(2) have "length [0, 0, 3, 0, 0 :: int] = length (ustr ''hyph'') + 1" by blast
  with e h(1) l show ?thesis by blast
qed

end
